theory Spec2Isabelle
  imports Main
begin

section \<open>The proleptic Gregorian calendar behind \<open>pd.Timestamp\<close>\<close>

text \<open>
  \<open>src/utils.py\<close> builds every date with \<open>pd.Timestamp(year=, month=, day=)\<close>, moves it with
  \<open>pd.Timedelta(days=)\<close> and reads \<open>.year\<close>, \<open>.month\<close>, \<open>.weekday()\<close> and \<open>.normalize()\<close>.
  A \<open>Timestamp\<close> is a subclass of Python's \<open>datetime\<close>; its calendar is the proleptic
  Gregorian calendar of the \<open>datetime\<close> module. The calendar functions below follow the reference implementation of
  that module (\<open>_is_leap\<close>, \<open>_days_before_year\<close>, \<open>_days_in_month\<close>, \<open>_days_before_month\<close>,
  \<open>_ymd2ord\<close>, \<open>_ord2ymd\<close>); Python's \<open>//\<close> and \<open>%\<close> on integers are \<open>div\<close> and \<open>mod\<close> on
  \<open>int\<close> (both round towards minus infinity).
\<close>

definition is_leap :: "int \<Rightarrow> bool" where
  "is_leap year \<longleftrightarrow> year mod 4 = 0 \<and> (year mod 100 \<noteq> 0 \<or> year mod 400 = 0)"

definition days_before_year :: "int \<Rightarrow> int" where
  "days_before_year year = (let y = year - 1 in y * 365 + y div 4 - y div 100 + y div 400)"

definition DAYS_IN_MONTH :: "int list" where
  "DAYS_IN_MONTH = [-1, 31, 28, 31, 30, 31, 30, 31, 31, 30, 31, 30, 31]"

definition DAYS_BEFORE_MONTH :: "int list" where
  "DAYS_BEFORE_MONTH = [-1, 0, 31, 59, 90, 120, 151, 181, 212, 243, 273, 304, 334]"

definition days_in_month :: "int \<Rightarrow> int \<Rightarrow> int" where
  "days_in_month year month =
     (if month = 2 \<and> is_leap year then 29 else DAYS_IN_MONTH ! nat month)"

definition days_before_month :: "int \<Rightarrow> int \<Rightarrow> int" where
  "days_before_month year month =
     DAYS_BEFORE_MONTH ! nat month + (if month > 2 \<and> is_leap year then 1 else 0)"

definition ymd2ord :: "int \<Rightarrow> int \<Rightarrow> int \<Rightarrow> int" where
  "ymd2ord year month day = days_before_year year + days_before_month year month + day"

definition ord2ymd :: "int \<Rightarrow> int \<times> int \<times> int" where
  "ord2ymd n0 =
     (let n = n0 - 1;
          n400 = n div 146097; n = n mod 146097;
          year = n400 * 400 + 1;
          n100 = n div 36524; n = n mod 36524;
          n4 = n div 1461; n = n mod 1461;
          n1 = n div 365; n = n mod 365;
          year = year + n100 * 100 + n4 * 4 + n1
      in if n1 = 4 \<or> n100 = 4 then (year - 1, 12, 31)
         else
           let leapyear = (n1 = 3 \<and> (n4 \<noteq> 24 \<or> n100 = 3));
               month = (n + 50) div 32;
               preceding = DAYS_BEFORE_MONTH ! nat month
                           + (if month > 2 \<and> leapyear then 1 else 0)
           in if preceding > n
              then let month = month - 1;
                       preceding = preceding
                         - (DAYS_IN_MONTH ! nat month + (if month = 2 \<and> leapyear then 1 else 0))
                   in (year, month, n - preceding + 1)
              else (year, month, n - preceding + 1))"

text \<open>
  The second half of \<open>_ord2ymd\<close> (from the day of the year to month and day), named so
  that the proofs can treat it on its own.
\<close>

definition month_day :: "bool \<Rightarrow> int \<Rightarrow> int \<times> int" where
  "month_day leapyear n =
     (let month = (n + 50) div 32;
          preceding = DAYS_BEFORE_MONTH ! nat month + (if month > 2 \<and> leapyear then 1 else 0)
      in if preceding > n
         then let month = month - 1;
                  preceding = preceding
                    - (DAYS_IN_MONTH ! nat month + (if month = 2 \<and> leapyear then 1 else 0))
              in (month, n - preceding + 1)
         else (month, n - preceding + 1))"

section \<open>Timestamps\<close>

text \<open>
  A timezone-naive \<open>Timestamp\<close> is modelled by the instant it denotes: the number of
  nanoseconds since 1970-01-01T00:00 (the day of ordinal 719163), an unbounded integer, so
  that the resolution in which pandas stores the value plays no role. As a subclass of
  \<open>datetime\<close> a \<open>Timestamp\<close> has a year between \<open>MINYEAR = 1\<close> and \<open>MAXYEAR = 9999\<close>, that is an
  ordinal between 1 and 3652059: the constructor rejects other fields with \<open>ValueError\<close>,
  and so does arithmetic whose result would leave that range (\<open>OutOfBoundsDatetime\<close> is a
  subclass of \<open>ValueError\<close>). There is no other failure: the functions of \<open>src/utils.py\<close>
  check nothing themselves.
\<close>

datatype error = ValueError

datatype Timestamp = Timestamp (ts_value: int)

definition NS_PER_DAY :: int where
  "NS_PER_DAY = 86400000000000"

definition EPOCH_ORDINAL :: int where
  "EPOCH_ORDINAL = 719163"

definition MAXORDINAL :: int where
  "MAXORDINAL = 3652059"

text \<open>\<open>pd.Timestamp(year=year, month=month, day=day)\<close>\<close>

definition new_Timestamp :: "int \<Rightarrow> int \<Rightarrow> int \<Rightarrow> error + Timestamp" where
  "new_Timestamp year month day =
     (if year < 1 \<or> 9999 < year then Inl ValueError
      else if month < 1 \<or> 12 < month then Inl ValueError
      else if day < 1 \<or> days_in_month year month < day then Inl ValueError
      else Inr (Timestamp ((ymd2ord year month day - EPOCH_ORDINAL) * NS_PER_DAY)))"

definition toordinal :: "Timestamp \<Rightarrow> int" where
  "toordinal ts = ts_value ts div NS_PER_DAY + EPOCH_ORDINAL"

definition ts_year :: "Timestamp \<Rightarrow> int" where
  "ts_year ts = fst (ord2ymd (toordinal ts))"

definition ts_month :: "Timestamp \<Rightarrow> int" where
  "ts_month ts = fst (snd (ord2ymd (toordinal ts)))"

definition ts_day :: "Timestamp \<Rightarrow> int" where
  "ts_day ts = snd (snd (ord2ymd (toordinal ts)))"

text \<open>\<open>ts.weekday()\<close>: Monday is 0, Sunday is 6.\<close>

definition weekday :: "Timestamp \<Rightarrow> int" where
  "weekday ts = (toordinal ts + 6) mod 7"

text \<open>\<open>ts + pd.Timedelta(days=k)\<close>; \<open>ts - pd.Timedelta(days=k)\<close> is \<open>add_days ts (- k)\<close>.\<close>

definition add_days :: "Timestamp \<Rightarrow> int \<Rightarrow> error + Timestamp" where
  "add_days ts k =
     (let v = ts_value ts + k * NS_PER_DAY;
          n = v div NS_PER_DAY + EPOCH_ORDINAL
      in if 1 \<le> n \<and> n \<le> MAXORDINAL then Inr (Timestamp v) else Inl ValueError)"

text \<open>\<open>ts.normalize()\<close>: midnight of the same day.\<close>

definition normalize :: "Timestamp \<Rightarrow> Timestamp" where
  "normalize ts = Timestamp (ts_value ts - ts_value ts mod NS_PER_DAY)"

text \<open>
  The timestamps a caller can pass: those of a day that \<open>datetime\<close> can name.
\<close>

definition valid_ts :: "Timestamp \<Rightarrow> bool" where
  "valid_ts ts \<longleftrightarrow> 1 \<le> toordinal ts \<and> toordinal ts \<le> MAXORDINAL"

section \<open>Calendar helpers of \<open>src/utils.py\<close>\<close>

definition easter_date :: "int \<Rightarrow> error + Timestamp" where
  "easter_date year =
     (let a = year mod 19;
          b = year div 100;
          c = year mod 100;
          d = b div 4;
          e = b mod 4;
          f = (b + 8) div 25;
          g = (b - f + 1) div 3;
          h = (19 * a + b - d - g + 15) mod 30;
          i = c div 4;
          k = c mod 4;
          l = (32 + 2 * e + 2 * i - h - k) mod 7;
          m = (a + 11 * h + 22 * l) div 451;
          month = (h + l - 7 * m + 114) div 31;
          day = (h + l - 7 * m + 114) mod 31 + 1
      in new_Timestamp year month day)"

definition good_friday :: "int \<Rightarrow> error + Timestamp" where
  "good_friday year =
     (case easter_date year of Inl err \<Rightarrow> Inl err
      | Inr easter \<Rightarrow> add_days easter (- 2))"

definition third_friday :: "int \<Rightarrow> int \<Rightarrow> error + Timestamp" where
  "third_friday year month =
     (case new_Timestamp year month 1 of Inl err \<Rightarrow> Inl err
      | Inr first \<Rightarrow>
          let offset = (4 - weekday first) mod 7
          in add_days first (offset + 14))"

definition spx_monthly_expiration :: "int \<Rightarrow> int \<Rightarrow> error + Timestamp" where
  "spx_monthly_expiration year month =
     (case third_friday year month of Inl err \<Rightarrow> Inl err
      | Inr tf \<Rightarrow>
     (case good_friday year of Inl err \<Rightarrow> Inl err
      | Inr gf \<Rightarrow>
          if normalize tf = normalize gf then add_days tf (- 1) else Inr tf))"

text \<open>
  The step to the following month, written three times in the source:
  \<open>(year + 1, 1) if month == 12 else (year, month + 1)\<close>.
\<close>

definition following_month :: "int \<Rightarrow> int \<Rightarrow> int \<times> int" where
  "following_month year month = (if month = 12 then (year + 1, 1) else (year, month + 1))"

definition vix_monthly_settlement_for_month :: "int \<Rightarrow> int \<Rightarrow> error + Timestamp" where
  "vix_monthly_settlement_for_month year month =
     (let (y2, m2) = following_month year month
      in case spx_monthly_expiration y2 m2 of Inl err \<Rightarrow> Inl err
         | Inr spx_exp_next \<Rightarrow> add_days spx_exp_next (- 30))"

definition next_vix_monthly_settlement :: "Timestamp \<Rightarrow> error + Timestamp" where
  "next_vix_monthly_settlement ts =
     (case vix_monthly_settlement_for_month (ts_year ts) (ts_month ts) of Inl err \<Rightarrow> Inl err
      | Inr cand \<Rightarrow>
          if ts_value (normalize ts) > ts_value (normalize cand)
          then let (y, m) = following_month (ts_year ts) (ts_month ts)
               in vix_monthly_settlement_for_month y m
          else Inr cand)"

definition next_two_vix_settlements :: "Timestamp \<Rightarrow> error + Timestamp \<times> Timestamp" where
  "next_two_vix_settlements ts =
     (case vix_monthly_settlement_for_month (ts_year ts) (ts_month ts) of Inl err \<Rightarrow> Inl err
      | Inr first \<Rightarrow>
          if ts_value (normalize ts) > ts_value (normalize first)
          then let (y, m) = following_month (ts_year ts) (ts_month ts)
               in (case vix_monthly_settlement_for_month y m of Inl err \<Rightarrow> Inl err
                   | Inr first \<Rightarrow>
                       let (y2, m2) = following_month y m
                       in (case vix_monthly_settlement_for_month y2 m2 of Inl err \<Rightarrow> Inl err
                           | Inr second \<Rightarrow> Inr (first, second)))
          else let (y, m) = following_month (ts_year ts) (ts_month ts)
               in (case vix_monthly_settlement_for_month y m of Inl err \<Rightarrow> Inl err
                   | Inr second \<Rightarrow> Inr (first, second)))"

text \<open>
  Two notions for the proofs: the fields of a date that \<open>datetime\<close> accepts (the upper bound
  on the year apart), and the midnight timestamp of a date.
\<close>

definition valid_date :: "int \<Rightarrow> int \<Rightarrow> int \<Rightarrow> bool" where
  "valid_date y m d \<longleftrightarrow> 1 \<le> y \<and> 1 \<le> m \<and> m \<le> 12 \<and> 1 \<le> d \<and> d \<le> days_in_month y m"

definition date_ts :: "int \<Rightarrow> int \<Rightarrow> int \<Rightarrow> Timestamp" where
  "date_ts y m d = Timestamp ((ymd2ord y m d - EPOCH_ORDINAL) * NS_PER_DAY)"

section \<open>The calendar: ordinals and dates correspond\<close>

lemma divmod_eq:
  fixes a b q r :: int
  assumes "a = b * q + r" "0 \<le> r" "r < b"
  shows "a div b = q \<and> a mod b = r"
  using assms int_div_pos_eq int_mod_pos_eq by blast

lemma year_decomp:
  fixes Y :: int
  assumes "0 \<le> Y"
  obtains a b c e where "Y = 400 * a + 100 * b + 4 * c + e" "0 \<le> a" "0 \<le> b" "b \<le> 3"
    "0 \<le> c" "c \<le> 24" "0 \<le> e" "e \<le> 3"
proof -
  let ?a = "Y div 400" and ?b = "(Y mod 400) div 100" and ?c = "(Y mod 100) div 4" and ?e = "Y mod 4"
  have "Y mod 400 = 100 * ?b + (Y mod 400) mod 100" by simp
  moreover have "(Y mod 400) mod 100 = Y mod 100" by (simp add: mod_mod_cancel)
  moreover have "Y mod 100 = 4 * ?c + (Y mod 100) mod 4" by simp
  moreover have "(Y mod 100) mod 4 = Y mod 4" by (simp add: mod_mod_cancel)
  moreover have "Y = 400 * ?a + Y mod 400" by simp
  ultimately have "Y = 400 * ?a + 100 * ?b + 4 * ?c + ?e" by linarith
  moreover have "0 \<le> ?a" using assms by simp
  moreover have "0 \<le> ?b" "?b \<le> 3" "0 \<le> ?c" "?c \<le> 24" "0 \<le> ?e" "?e \<le> 3" by simp_all
  ultimately show ?thesis using that by blast
qed

lemma dby_decomp:
  fixes a b c e :: int
  assumes "0 \<le> b" "b \<le> 3" "0 \<le> c" "c \<le> 24" "0 \<le> e" "e \<le> 3"
  shows "days_before_year (400 * a + 100 * b + 4 * c + e + 1)
         = 146097 * a + 36524 * b + 1461 * c + 365 * e"
proof -
  let ?Y = "400 * a + 100 * b + 4 * c + e"
  have d4: "?Y div 4 = 100 * a + 25 * b + c"
    by (rule int_div_pos_eq [where r = e]) (use assms in auto)
  have d100: "?Y div 100 = 4 * a + b"
    by (rule int_div_pos_eq [where r = "4 * c + e"]) (use assms in auto)
  have d400: "?Y div 400 = a"
    by (rule int_div_pos_eq [where r = "100 * b + 4 * c + e"]) (use assms in auto)
  show ?thesis
    unfolding days_before_year_def Let_def using d4 d100 d400 by simp
qed

lemma leap_decomp:
  fixes a b c e :: int
  assumes "0 \<le> b" "b \<le> 3" "0 \<le> c" "c \<le> 24" "0 \<le> e" "e \<le> 3"
  shows "is_leap (400 * a + 100 * b + 4 * c + e + 1) \<longleftrightarrow> e = 3 \<and> (c \<noteq> 24 \<or> b = 3)"
proof -
  let ?y = "400 * a + 100 * b + 4 * c + e + 1"
  have m4: "?y mod 4 = (e + 1) mod 4"
    using mod_mult_self4 [of 4 "100 * a + 25 * b + c" "e + 1"] by (simp add: algebra_simps)
  have m100: "?y mod 100 = (4 * c + e + 1) mod 100"
    using mod_mult_self4 [of 100 "4 * a + b" "4 * c + e + 1"] by (simp add: algebra_simps)
  have m400: "?y mod 400 = (100 * b + 4 * c + e + 1) mod 400"
    using mod_mult_self4 [of 400 "a" "100 * b + 4 * c + e + 1"] by (simp add: algebra_simps)
  have "e = 0 \<or> e = 1 \<or> e = 2 \<or> e = 3" using assms by linarith
  then have e4: "(e + 1) mod 4 = 0 \<longleftrightarrow> e = 3" by auto
  have c100: "(4 * c + e + 1) mod 100 = 0 \<longleftrightarrow> c = 24 \<and> e = 3"
  proof (cases "c = 24 \<and> e = 3")
    case True then show ?thesis by simp
  next
    case False
    then have "0 < 4 * c + e + 1" "4 * c + e + 1 < 100" using assms by auto
    then show ?thesis using False by simp
  qed
  have b400: "(100 * b + 4 * c + e + 1) mod 400 = 0 \<longleftrightarrow> b = 3 \<and> c = 24 \<and> e = 3"
  proof (cases "b = 3 \<and> c = 24 \<and> e = 3")
    case True then show ?thesis by simp
  next
    case False
    then have "0 < 100 * b + 4 * c + e + 1" "100 * b + 4 * c + e + 1 < 400" using assms by auto
    then show ?thesis using False by simp
  qed
  show ?thesis unfolding is_leap_def m4 m100 m400 e4 c100 b400 by auto
qed

lemma year_part:
  fixes a b c e k :: int
  assumes "0 \<le> b" "b \<le> 3" "0 \<le> c" "c \<le> 24" "0 \<le> e" "e \<le> 3"
    and "0 \<le> k" "k < 365"
  defines "n \<equiv> 146097 * a + 36524 * b + 1461 * c + 365 * e + k"
  shows "n div 146097 = a" "n mod 146097 div 36524 = b"
    "n mod 146097 mod 36524 div 1461 = c"
    "n mod 146097 mod 36524 mod 1461 div 365 = e"
    "n mod 146097 mod 36524 mod 1461 mod 365 = k"
proof -
  have 1: "n div 146097 = a \<and> n mod 146097 = 36524 * b + 1461 * c + 365 * e + k"
    by (rule divmod_eq) (use assms in auto)
  have 2: "(36524 * b + 1461 * c + 365 * e + k) div 36524 = b
      \<and> (36524 * b + 1461 * c + 365 * e + k) mod 36524 = 1461 * c + 365 * e + k"
    by (rule divmod_eq) (use assms in auto)
  have 3: "(1461 * c + 365 * e + k) div 1461 = c
      \<and> (1461 * c + 365 * e + k) mod 1461 = 365 * e + k"
    by (rule divmod_eq) (use assms in auto)
  have 4: "(365 * e + k) div 365 = e \<and> (365 * e + k) mod 365 = k"
    by (rule divmod_eq) (use assms in auto)
  show "n div 146097 = a" "n mod 146097 div 36524 = b"
    "n mod 146097 mod 36524 div 1461 = c"
    "n mod 146097 mod 36524 mod 1461 div 365 = e"
    "n mod 146097 mod 36524 mod 1461 mod 365 = k"
    using 1 2 3 4 by simp_all
qed

lemma year_part_last:
  fixes a b c :: int
  assumes "0 \<le> b" "b \<le> 3" "0 \<le> c" "c \<le> 24" "c \<noteq> 24 \<or> b = 3"
  defines "n \<equiv> 146097 * a + 36524 * b + 1461 * c + 365 * 3 + 365"
  shows "n div 146097 = a"
    "b = 3 \<and> c = 24 \<Longrightarrow> n mod 146097 div 36524 = 4 \<and> n mod 146097 mod 36524 = 0"
    "\<not> (b = 3 \<and> c = 24) \<Longrightarrow> n mod 146097 div 36524 = b
       \<and> n mod 146097 mod 36524 div 1461 = c
       \<and> n mod 146097 mod 36524 mod 1461 div 365 = 4
       \<and> n mod 146097 mod 36524 mod 1461 mod 365 = 0"
proof -
  have 1: "n div 146097 = a \<and> n mod 146097 = 36524 * b + 1461 * c + 1460"
    by (rule divmod_eq) (use assms in auto)
  show "n div 146097 = a" using 1 by simp
  show "n mod 146097 div 36524 = 4 \<and> n mod 146097 mod 36524 = 0" if "b = 3 \<and> c = 24"
    using 1 that by simp
  show "n mod 146097 div 36524 = b
       \<and> n mod 146097 mod 36524 div 1461 = c
       \<and> n mod 146097 mod 36524 mod 1461 div 365 = 4
       \<and> n mod 146097 mod 36524 mod 1461 mod 365 = 0" if h: "\<not> (b = 3 \<and> c = 24)"
  proof -
    from h assms have c: "c \<le> 23" by auto
    have 2: "(36524 * b + 1461 * c + 1460) div 36524 = b
      \<and> (36524 * b + 1461 * c + 1460) mod 36524 = 1461 * c + 1460"
      by (rule divmod_eq) (use assms c in auto)
    have 3: "(1461 * c + 1460) div 1461 = c \<and> (1461 * c + 1460) mod 1461 = 1460"
      by (rule divmod_eq) (use assms in auto)
    show ?thesis using 1 2 3 by simp
  qed
qed

lemma month_cases:
  fixes m :: int
  assumes "1 \<le> m" "m \<le> 12"
  shows "m = 1 \<or> m = 2 \<or> m = 3 \<or> m = 4 \<or> m = 5 \<or> m = 6 \<or> m = 7 \<or> m = 8 \<or> m = 9
    \<or> m = 10 \<or> m = 11 \<or> m = 12"
  using assms by presburger

lemma div32:
  fixes x q :: int
  assumes "32 * q \<le> x" "x < 32 * q + 32"
  shows "x div 32 = q"
  by (rule int_div_pos_eq [where r = "x - 32 * q"]) (use assms in auto)

lemma div32_cases:
  fixes x q q' :: int
  assumes "32 * q \<le> x" "x < 32 * q + 64" "q' = q + 1"
  shows "x div 32 = q \<or> x div 32 = q'"
proof (cases "x < 32 * q + 32")
  case True
  then show ?thesis using div32 [of q x] assms by simp
next
  case False
  then show ?thesis using div32 [of "q + 1" x] assms by simp
qed

lemma month_div32:
  assumes "1 \<le> m" "m \<le> 12" "1 \<le> d" "d \<le> days_in_month y m"
  shows "(days_before_month y m + d - 1 + 50) div 32 = m \<or>
     ((days_before_month y m + d - 1 + 50) div 32 = m + 1 \<and> m \<le> 11 \<and>
      DAYS_BEFORE_MONTH ! nat (m + 1) + (if m + 1 > 2 \<and> is_leap y then 1 else 0)
        > days_before_month y m + d - 1)"
  using month_cases [OF assms(1,2)] assms(3,4)
  apply (elim disjE)
  apply (simp_all add: days_before_month_def days_in_month_def DAYS_BEFORE_MONTH_def DAYS_IN_MONTH_def split: if_splits)
  apply ((intro conjI impI)?; (rule div32_cases | rule div32 [where q = 12]); simp)+
  done

lemma month_day_roundtrip:
  assumes "1 \<le> m" "m \<le> 12" "1 \<le> d" "d \<le> days_in_month y m"
  shows "month_day (is_leap y) (days_before_month y m + d - 1) = (m, d)"
proof -
  let ?n = "days_before_month y m + d - 1"
  consider (same) "(?n + 50) div 32 = m" | (succ) "(?n + 50) div 32 = m + 1" "m \<le> 11"
      "DAYS_BEFORE_MONTH ! nat (m + 1) + (if m + 1 > 2 \<and> is_leap y then 1 else 0) > ?n"
  proof -
    have "(?n + 50) div 32 = m \<or> ((?n + 50) div 32 = m + 1 \<and> m \<le> 11 \<and>
      DAYS_BEFORE_MONTH ! nat (m + 1) + (if m + 1 > 2 \<and> is_leap y then 1 else 0) > ?n)"
      by (rule month_div32 [OF assms])
    then show ?thesis using that by blast
  qed
  then show ?thesis
  proof cases
    case same
    have "\<not> DAYS_BEFORE_MONTH ! nat m + (if m > 2 \<and> is_leap y then 1 else 0) > ?n"
      using assms(3) by (simp add: days_before_month_def)
    then show ?thesis
      unfolding month_day_def Let_def same
      using assms(3) by (simp add: days_before_month_def)
  next
    case succ
    have "DAYS_BEFORE_MONTH ! nat (m + 1) + (if m + 1 > 2 \<and> is_leap y then 1 else 0)
          - (DAYS_IN_MONTH ! nat m + (if m = 2 \<and> is_leap y then 1 else 0))
          = days_before_month y m"
      using month_cases [OF assms(1,2)] succ(2)
      by (elim disjE) (simp_all add: days_before_month_def DAYS_BEFORE_MONTH_def DAYS_IN_MONTH_def)
    then show ?thesis
      unfolding month_day_def Let_def succ(1)
      using succ(3) by simp
  qed
qed

lemma ord2ymd_alt:
  "ord2ymd n0 =
     (let n = n0 - 1;
          n400 = n div 146097; n100 = n mod 146097 div 36524;
          n4 = n mod 146097 mod 36524 div 1461;
          n1 = n mod 146097 mod 36524 mod 1461 div 365;
          r = n mod 146097 mod 36524 mod 1461 mod 365;
          year = n400 * 400 + 1 + n100 * 100 + n4 * 4 + n1
      in if n1 = 4 \<or> n100 = 4 then (year - 1, 12, 31)
         else (year, month_day (n1 = 3 \<and> (n4 \<noteq> 24 \<or> n100 = 3)) r))"
  unfolding ord2ymd_def month_day_def Let_def
  by (simp only: if_distrib [of "Pair _"] cong: if_cong)

lemma dim_cases:
  assumes "1 \<le> m" "m \<le> 12"
  shows "days_in_month y m = (if m = 2 then (if is_leap y then 29 else 28)
     else if m = 4 \<or> m = 6 \<or> m = 9 \<or> m = 11 then 30 else 31)"
  using month_cases [OF assms]
  by (elim disjE) (simp_all add: days_in_month_def DAYS_IN_MONTH_def)

lemma dbm_cases:
  assumes "1 \<le> m" "m \<le> 12"
  shows "days_before_month y m =
      [0, 31, 59, 90, 120, 151, 181, 212, 243, 273, 304, 334] ! nat (m - 1)
      + (if m > 2 \<and> is_leap y then 1 else 0)"
  using month_cases [OF assms]
  by (elim disjE) (simp_all add: days_before_month_def DAYS_BEFORE_MONTH_def)

lemma doy_bounds:
  assumes "1 \<le> m" "m \<le> 12" "1 \<le> d" "d \<le> days_in_month y m"
  shows "0 \<le> days_before_month y m + d - 1"
    and "days_before_month y m + d - 1 \<le> (if is_leap y then 365 else 364)"
    and "days_before_month y m + d - 1 = 365 \<Longrightarrow> m = 12 \<and> d = 31"
proof -
  have d: "d \<le> (if m = 2 then (if is_leap y then 29 else 28)
     else if m = 4 \<or> m = 6 \<or> m = 9 \<or> m = 11 then 30 else 31)"
    using assms(4) dim_cases [OF assms(1,2)] by simp
  show "0 \<le> days_before_month y m + d - 1"
    using month_cases [OF assms(1,2)] assms(3)
    by (elim disjE) (simp_all add: dbm_cases)
  show "days_before_month y m + d - 1 \<le> (if is_leap y then 365 else 364)"
    using month_cases [OF assms(1,2)] d
    by (elim disjE) (simp_all add: dbm_cases split: if_splits)
  show "m = 12 \<and> d = 31" if "days_before_month y m + d - 1 = 365"
    using month_cases [OF assms(1,2)] d that
    by (elim disjE) (simp_all add: dbm_cases split: if_splits)
qed

lemma ord2ymd_ymd2ord:
  assumes "1 \<le> y" "1 \<le> m" "m \<le> 12" "1 \<le> d" "d \<le> days_in_month y m"
  shows "ord2ymd (ymd2ord y m d) = (y, m, d)"
proof -
  obtain a b c e where Y: "y - 1 = 400 * a + 100 * b + 4 * c + e" and
    r: "0 \<le> a" "0 \<le> b" "b \<le> 3" "0 \<le> c" "c \<le> 24" "0 \<le> e" "e \<le> 3"
    using year_decomp [of "y - 1"] assms(1) by (metis diff_ge_0_iff_ge)
  have y: "y = 400 * a + 100 * b + 4 * c + e + 1" using Y by simp
  define k where "k = days_before_month y m + d - 1"
  have dby: "days_before_year y = 146097 * a + 36524 * b + 1461 * c + 365 * e"
    unfolding y using r by (intro dby_decomp)
  have leap: "is_leap y \<longleftrightarrow> e = 3 \<and> (c \<noteq> 24 \<or> b = 3)"
    unfolding y using r by (intro leap_decomp)
  have n: "ymd2ord y m d - 1 = 146097 * a + 36524 * b + 1461 * c + 365 * e + k"
    by (simp add: ymd2ord_def dby k_def)
  have k0: "0 \<le> k" and k1: "k \<le> (if is_leap y then 365 else 364)"
    and k2: "k = 365 \<Longrightarrow> m = 12 \<and> d = 31"
    unfolding k_def using doy_bounds [OF assms(2-5)] by auto
  have md: "month_day (is_leap y) k = (m, d)"
    unfolding k_def by (rule month_day_roundtrip [OF assms(2-5)])
  show ?thesis
  proof (cases "k = 365")
    case False
    then have k3: "k < 365" using k1 by (auto split: if_splits)
    note yp = year_part [OF r(2-7) k0 k3, of a]
    have "ord2ymd (ymd2ord y m d) = (400 * a + 100 * b + 4 * c + e + 1, month_day (is_leap y) k)"
      unfolding ord2ymd_alt Let_def n yp leap using r by simp
    then show ?thesis using md y by simp
  next
    case True
    then have L: "e = 3" "c \<noteq> 24 \<or> b = 3" using k1 leap by (auto split: if_splits)
    have md': "m = 12" "d = 31" using k2 True by auto
    have n': "ymd2ord y m d - 1 = 146097 * a + 36524 * b + 1461 * c + 365 * 3 + 365"
      using n True L by simp
    note yl = year_part_last [OF r(2-5) L(2), of a]
    show ?thesis
    proof (cases "b = 3 \<and> c = 24")
      case True
      then have "ord2ymd (ymd2ord y m d) = (400 * a + 400, 12, 31)"
        unfolding ord2ymd_alt Let_def n' using yl(1) yl(2) by simp
      then show ?thesis using y L md' True by simp
    next
      case False
      then have "ord2ymd (ymd2ord y m d) = (400 * a + 100 * b + 4 * c + 4, 12, 31)"
        unfolding ord2ymd_alt Let_def n' using yl(1) yl(3) by simp
      then show ?thesis using y L md' by simp
    qed
  qed
qed

lemma div_step:
  fixes y c :: int
  assumes "0 < c"
  shows "y div c = (y - 1) div c + (if y mod c = 0 then 1 else 0)"
proof (cases "y mod c = 0")
  case True
  have "(y - 1) div c = y div c - 1"
  proof (rule int_div_pos_eq [where r = "c - 1"])
    have "c * (y div c) + y mod c = y" by (rule mult_div_mod_eq)
    then have "c * (y div c) = y" using True by simp
    then show "y - 1 = c * (y div c - 1) + (c - 1)" by (simp add: right_diff_distrib)
  qed (use assms in auto)
  then show ?thesis using True by simp
next
  case False
  have "(y - 1) div c = y div c"
  proof (rule int_div_pos_eq [where r = "y mod c - 1"])
    have "c * (y div c) + y mod c = y" by (rule mult_div_mod_eq)
    then show "y - 1 = c * (y div c) + (y mod c - 1)" by linarith
    have "0 \<le> y mod c" using assms by simp
    then show "0 \<le> y mod c - 1" using False by simp
    show "y mod c - 1 < c" using pos_mod_bound [OF assms, of y] by linarith
  qed
  then show ?thesis using False by simp
qed

lemma leap_count:
  assumes "r \<Longrightarrow> q" "q \<Longrightarrow> p"
  shows "365 + (if p then 1 else 0) - (if q then 1 else 0) + (if r then 1 else 0)
    = (if p \<and> (\<not> q \<or> r) then 366 else (365::int))"
  using assms by (cases p; cases q; cases r; simp)

lemma dby_step_arith:
  fixes y A B C p q r :: int
  shows "y * 365 + (A + p) - (B + q) + (C + r)
     = ((y - 1) * 365 + A - B + C) + (365 + p - q + r)"
  by (simp add: algebra_simps)

lemma dby_Suc: "days_before_year (y + 1) = days_before_year y + (if is_leap y then 366 else 365)"
proof -
  have 4: "y div 4 = (y - 1) div 4 + (if y mod 4 = 0 then 1 else 0)"
    by (rule div_step) simp
  have 100: "y div 100 = (y - 1) div 100 + (if y mod 100 = 0 then 1 else 0)"
    by (rule div_step) simp
  have 400: "y div 400 = (y - 1) div 400 + (if y mod 400 = 0 then 1 else 0)"
    by (rule div_step) simp
  have a: "y mod 4 = 0" if "y mod 100 = 0"
  proof -
    have "y mod 4 = y mod 100 mod 4" by (simp only: mod_mod_cancel [of 4 100 y, simplified])
    then show ?thesis by (simp only: that mod_0)
  qed
  have b: "y mod 100 = 0" if "y mod 400 = 0"
  proof -
    have "y mod 100 = y mod 400 mod 100" by (simp only: mod_mod_cancel [of 100 400 y, simplified])
    then show ?thesis by (simp only: that mod_0)
  qed
  have "y + 1 - 1 = y" by simp
  then have "days_before_year (y + 1) = y * 365 + y div 4 - y div 100 + y div 400"
    unfolding days_before_year_def Let_def by (simp only:)
  also have "\<dots> = y * 365 + ((y - 1) div 4 + (if y mod 4 = 0 then 1 else 0))
       - ((y - 1) div 100 + (if y mod 100 = 0 then 1 else 0))
       + ((y - 1) div 400 + (if y mod 400 = 0 then 1 else 0))"
    using 4 100 400 by (simp only:)
  also have "\<dots> = days_before_year y + (365 + (if y mod 4 = 0 then 1 else 0)
       - (if y mod 100 = 0 then 1 else 0) + (if y mod 400 = 0 then 1 else 0))"
    unfolding days_before_year_def Let_def by (rule dby_step_arith)
  also have "\<dots> = days_before_year y + (if is_leap y then 366 else 365)"
    unfolding is_leap_def by (simp only: leap_count [OF b a])
  finally show ?thesis .
qed

lemma following_month_ord:
  assumes "1 \<le> m" "m \<le> 12" "following_month y m = (y2, m2)"
  shows "ymd2ord y2 m2 d = ymd2ord y m (d + days_in_month y m)"
proof (cases "m = 12")
  case True
  then have "y2 = y + 1" "m2 = 1" using assms(3) by (auto simp: following_month_def)
  then show ?thesis
    using True by (simp add: ymd2ord_def dby_Suc dbm_cases dim_cases)
next
  case False
  then have *: "y2 = y" "m2 = m + 1" "m \<le> 11" using assms by (auto simp: following_month_def)
  have "days_before_month y (m + 1) = days_before_month y m + days_in_month y m"
    using month_cases [OF assms(1,2)] False
    by (elim disjE) (simp_all add: dbm_cases dim_cases)
  then show ?thesis using * by (simp add: ymd2ord_def)
qed

lemma NS_PER_DAY_pos: "0 < NS_PER_DAY"
  by (simp add: NS_PER_DAY_def)

lemma toordinal_date_ts: "toordinal (date_ts y m d) = ymd2ord y m d"
  using NS_PER_DAY_pos by (simp add: toordinal_def date_ts_def)

lemma ymd2ord_add: "ymd2ord y m (d + k) = ymd2ord y m d + k"
  by (simp add: ymd2ord_def)

lemma value_date_ts_add: "ts_value (date_ts y m d) + k * NS_PER_DAY = ts_value (date_ts y m (d + k))"
  by (simp add: date_ts_def ymd2ord_add distrib_right left_diff_distrib)

lemma dby_mono:
  assumes "y \<le> y'"
  shows "days_before_year y \<le> days_before_year y'"
  using assms
proof (induction y' rule: int_ge_induct)
  case base
  show ?case by simp
next
  case (step i)
  have "days_before_year i \<le> days_before_year (i + 1)" by (simp add: dby_Suc)
  with step.IH show ?case by simp
qed

lemma dby_1: "days_before_year 1 = 0"
  by (simp add: days_before_year_def)

lemma dby_10000: "days_before_year 10000 = MAXORDINAL"
  by (simp add: days_before_year_def MAXORDINAL_def)

lemma ymd2ord_range:
  assumes "valid_date y m d" "y \<le> 9999"
  shows "1 \<le> ymd2ord y m d" "ymd2ord y m d \<le> MAXORDINAL"
proof -
  from assms(1) have v: "1 \<le> y" "1 \<le> m" "m \<le> 12" "1 \<le> d" "d \<le> days_in_month y m"
    by (simp_all add: valid_date_def)
  have "0 \<le> days_before_year y" using dby_mono [of 1 y] v(1) by (simp add: dby_1)
  moreover note doy_bounds(1) [OF v(2-5)]
  ultimately show "1 \<le> ymd2ord y m d" by (simp add: ymd2ord_def)
  have "ymd2ord y m d \<le> days_before_year (y + 1)"
    using doy_bounds(2) [OF v(2-5)] by (simp add: ymd2ord_def dby_Suc split: if_splits)
  also have "\<dots> \<le> days_before_year 10000" using assms(2) by (intro dby_mono) simp
  finally show "ymd2ord y m d \<le> MAXORDINAL" by (simp add: dby_10000)
qed

lemma add_days_date_ts:
  "add_days (date_ts y m d) k =
     (if 1 \<le> ymd2ord y m (d + k) \<and> ymd2ord y m (d + k) \<le> MAXORDINAL
      then Inr (date_ts y m (d + k)) else Inl ValueError)"
proof -
  have "(ts_value (date_ts y m d) + k * NS_PER_DAY) div NS_PER_DAY + EPOCH_ORDINAL
      = ymd2ord y m (d + k)"
    unfolding value_date_ts_add using toordinal_date_ts [of y m "d + k"]
    by (simp add: toordinal_def)
  moreover have "Timestamp (ts_value (date_ts y m d) + k * NS_PER_DAY) = date_ts y m (d + k)"
    unfolding value_date_ts_add by simp
  ultimately show ?thesis by (simp add: add_days_def Let_def)
qed

lemma add_days_valid:
  assumes "valid_date y m (d + k)" "y \<le> 9999"
  shows "add_days (date_ts y m d) k = Inr (date_ts y m (d + k))"
  using ymd2ord_range [OF assms] by (simp add: add_days_date_ts)

lemma normalize_date_ts: "normalize (date_ts y m d) = date_ts y m d"
  by (simp add: normalize_def date_ts_def)

lemma date_ts_fields:
  assumes "valid_date y m d"
  shows "ts_year (date_ts y m d) = y" "ts_month (date_ts y m d) = m" "ts_day (date_ts y m d) = d"
  using assms ord2ymd_ymd2ord [of y m d]
  by (simp_all add: ts_year_def ts_month_def ts_day_def toordinal_date_ts valid_date_def)

lemma date_ts_eq_iff: "date_ts y m d = date_ts y m d' \<longleftrightarrow> d = d'"
  using NS_PER_DAY_pos by (simp add: date_ts_def ymd2ord_def)

lemma date_ts_less_iff: "ts_value (date_ts y m d) < ts_value (date_ts y m d') \<longleftrightarrow> d < d'"
  using NS_PER_DAY_pos by (simp add: date_ts_def ymd2ord_def)

lemma date_ts_eq_ord:
  "date_ts y m d = date_ts y' m' d' \<longleftrightarrow> ymd2ord y m d = ymd2ord y' m' d'"
  using NS_PER_DAY_pos by (simp add: date_ts_def)

lemma new_Timestamp_eq:
  "new_Timestamp y m d =
     (if valid_date y m d \<and> y \<le> 9999 then Inr (date_ts y m d) else Inl ValueError)"
  by (auto simp: new_Timestamp_def valid_date_def date_ts_def)

lemma following_month_date_ts:
  assumes "1 \<le> m" "m \<le> 12" "following_month y m = (y2, m2)"
  shows "date_ts y2 m2 d = date_ts y m (d + days_in_month y m)"
  by (simp add: date_ts_def following_month_ord [OF assms])

lemma weekday_date_ts: "weekday (date_ts y m d) = (ymd2ord y m d + 6) mod 7"
  by (simp add: weekday_def toordinal_date_ts)

lemma dim_range:
  assumes "1 \<le> m" "m \<le> 12"
  shows "28 \<le> days_in_month y m" "days_in_month y m \<le> 31"
  using assms by (auto simp: dim_cases)

lemma mod_range:
  fixes x c :: int
  assumes "0 < c"
  shows "0 \<le> x mod c" "x mod c \<le> c - 1"
  using pos_mod_sign [OF assms, of x] pos_mod_bound [OF assms, of x] by simp_all

lemma friday_offset:
  fixes n :: int
  defines "off \<equiv> (4 - (n + 6) mod 7) mod 7"
  shows "0 \<le> off" "off \<le> 6" "(n + (off + 14) + 6) mod 7 = 4" "(n + (off + 14) - 1 + 6) mod 7 = 3"
proof -
  show "0 \<le> off" "off \<le> 6" by (simp_all add: off_def)
  have "(n + (off + 14) + 6) mod 7 = ((n + 6) + (4 - (n + 6) mod 7) mod 7 + 7 * 2) mod 7"
    by (simp add: off_def algebra_simps)
  also have "\<dots> = ((n + 6) + (4 - (n + 6) mod 7) mod 7) mod 7"
    by (rule mod_mult_self2)
  also have "\<dots> = ((n + 6) mod 7 + (4 - (n + 6) mod 7)) mod 7"
    by (simp only: mod_add_eq mod_add_left_eq mod_add_right_eq)
  also have "\<dots> = 4" by simp
  finally show 1: "(n + (off + 14) + 6) mod 7 = 4" .
  have "(n + (off + 14) - 1 + 6) mod 7 = ((n + (off + 14) + 6) + 6 - 7 * 1) mod 7"
    by (simp add: algebra_simps)
  also have "\<dots> = ((n + (off + 14) + 6) + 6) mod 7"
    by (metis mod_mult_self2 diff_add_cancel)
  also have "\<dots> = ((n + (off + 14) + 6) mod 7 + 6) mod 7"
    by (simp only: mod_add_left_eq)
  also have "\<dots> = 3" unfolding 1 by simp
  finally show "(n + (off + 14) - 1 + 6) mod 7 = 3" .
qed

lemma easter_range:
  fixes a h l :: int
  assumes "0 \<le> a" "a \<le> 18" "0 \<le> h" "h \<le> 29" "0 \<le> l" "l \<le> 6"
  defines "m \<equiv> (a + 11 * h + 22 * l) div 451"
  defines "n \<equiv> h + l - 7 * m + 114"
  shows "(n div 31 = 3 \<and> 22 \<le> n mod 31 + 1 \<and> n mod 31 + 1 \<le> 31) \<or>
         (n div 31 = 4 \<and> 1 \<le> n mod 31 + 1 \<and> n mod 31 + 1 \<le> 25)"
proof -
  have n: "114 \<le> n \<and> n \<le> 148"
  proof (cases "a + 11 * h + 22 * l < 451")
    case True
    then have "m = 0" unfolding m_def using assms(1,3,5) by (intro div_pos_pos_trivial) auto
    then show ?thesis unfolding n_def using True assms(1-6) by auto
  next
    case False
    have "m = 1" unfolding m_def
      by (rule int_div_pos_eq [where r = "a + 11 * h + 22 * l - 451"]) (use False assms(1-6) in auto)
    then show ?thesis unfolding n_def using False assms(1-6) by auto
  qed
  show ?thesis
  proof (cases "n \<le> 123")
    case True
    have "n div 31 = 3 \<and> n mod 31 = n - 93"
      by (rule divmod_eq) (use n True in auto)
    then show ?thesis using n True by auto
  next
    case False
    have "n div 31 = 4 \<and> n mod 31 = n - 124"
      by (rule divmod_eq) (use n False in auto)
    then show ?thesis using n False by auto
  qed
qed

lemma third_friday_eq:
  assumes "1 \<le> y" "y \<le> 9999" "1 \<le> m" "m \<le> 12"
  obtains D where "15 \<le> D" "D \<le> 21" "third_friday y m = Inr (date_ts y m D)"
    "weekday (date_ts y m D) = 4" "weekday (date_ts y m (D - 1)) = 3"
proof -
  define n where "n = ymd2ord y m 1"
  define off where "off = (4 - (n + 6) mod 7) mod 7"
  note fo = friday_offset [of n, folded off_def]
  have v: "valid_date y m d" if "1 \<le> d" "d \<le> 28" for d
    using assms that dim_range [OF assms(3,4), of y] by (simp add: valid_date_def)
  have f: "new_Timestamp y m 1 = Inr (date_ts y m 1)"
    using v [of 1] assms by (simp add: new_Timestamp_eq)
  have w: "(4 - weekday (date_ts y m 1)) mod 7 = off"
    by (simp add: weekday_date_ts off_def n_def)
  have "add_days (date_ts y m 1) (off + 14) = Inr (date_ts y m (1 + (off + 14)))"
    using fo(1,2) assms by (intro add_days_valid v) auto
  then have tf: "third_friday y m = Inr (date_ts y m (1 + (off + 14)))"
    by (simp add: third_friday_def f Let_def w)
  have "weekday (date_ts y m (1 + (off + 14))) = 4"
    unfolding weekday_date_ts ymd2ord_add n_def [symmetric] by (rule fo(3))
  moreover have "weekday (date_ts y m (1 + (off + 14) - 1)) = 3"
    using fo(4) by (simp add: weekday_date_ts ymd2ord_def n_def algebra_simps)
  moreover have "15 \<le> 1 + (off + 14)" "1 + (off + 14) \<le> 21" using fo(1,2) by auto
  ultimately show ?thesis using that [of "1 + (off + 14)"] tf by blast
qed

lemma third_friday_Inl:
  assumes "\<not> (1 \<le> y \<and> y \<le> 9999 \<and> 1 \<le> m \<and> m \<le> 12)"
  shows "third_friday y m = Inl ValueError"
  using assms by (auto simp: third_friday_def new_Timestamp_def)

lemma third_friday_Inr:
  assumes "third_friday y m = Inr tf"
  shows "1 \<le> y \<and> y \<le> 9999 \<and> 1 \<le> m \<and> m \<le> 12"
  using assms third_friday_Inl [of y m] by force

lemma easter_date_eq:
  assumes "1 \<le> y" "y \<le> 9999"
  obtains mo d where "valid_date y mo d" "easter_date y = Inr (date_ts y mo d)"
    "(mo = 3 \<and> 22 \<le> d \<and> d \<le> 31) \<or> (mo = 4 \<and> 1 \<le> d \<and> d \<le> 25)"
proof -
  define a where "a = y mod 19"
  define b where "b = y div 100"
  define h where "h = (19 * a + b - b div 4 - (b - (b + 8) div 25 + 1) div 3 + 15) mod 30"
  define l where "l = (32 + 2 * (b mod 4) + 2 * (y mod 100 div 4) - h - y mod 100 mod 4) mod 7"
  define m where "m = (a + 11 * h + 22 * l) div 451"
  define n where "n = h + l - 7 * m + 114"
  have e: "easter_date y = new_Timestamp y (n div 31) (n mod 31 + 1)"
    unfolding easter_date_def Let_def n_def m_def l_def h_def b_def a_def ..
  have r: "(n div 31 = 3 \<and> 22 \<le> n mod 31 + 1 \<and> n mod 31 + 1 \<le> 31) \<or>
         (n div 31 = 4 \<and> 1 \<le> n mod 31 + 1 \<and> n mod 31 + 1 \<le> 25)"
    unfolding n_def m_def
    using mod_range [of 19 y] mod_range [of 30] mod_range [of 7]
    by (intro easter_range) (simp_all add: a_def h_def l_def)
  then have v: "valid_date y (n div 31) (n mod 31 + 1)"
    using assms by (auto simp: valid_date_def dim_cases)
  have "easter_date y = Inr (date_ts y (n div 31) (n mod 31 + 1))"
    unfolding e using v assms by (simp add: new_Timestamp_eq)
  then show ?thesis using that [OF v] r by blast
qed

lemma easter_date_Inl:
  assumes "\<not> (1 \<le> y \<and> y \<le> 9999)"
  shows "easter_date y = Inl ValueError"
proof -
  have "\<exists>mo d. easter_date y = new_Timestamp y mo d"
    unfolding easter_date_def Let_def by blast
  then show ?thesis using assms by (auto simp: new_Timestamp_def)
qed

lemma date_ts_april:
  "date_ts y 4 d = date_ts y 3 (d + 31)"
  using following_month_date_ts [of 3 y y 4 d] by (simp add: following_month_def dim_cases)

lemma good_friday_eq:
  assumes "1 \<le> y" "y \<le> 9999"
  obtains mo d where "valid_date y mo d" "easter_date y = Inr (date_ts y mo d)"
    "good_friday y = Inr (date_ts y mo (d - 2))"
    "(mo = 3 \<and> 22 \<le> d \<and> d \<le> 31) \<or> (mo = 4 \<and> 1 \<le> d \<and> d \<le> 25)"
proof -
  obtain mo d where md: "valid_date y mo d" "easter_date y = Inr (date_ts y mo d)"
    "(mo = 3 \<and> 22 \<le> d \<and> d \<le> 31) \<or> (mo = 4 \<and> 1 \<le> d \<and> d \<le> 25)"
    using easter_date_eq [OF assms] by blast
  have r: "1 \<le> ymd2ord y mo (d + - 2) \<and> ymd2ord y mo (d + - 2) \<le> MAXORDINAL"
  proof (cases "mo = 4 \<and> d \<le> 2")
    case True
    then have "valid_date y 3 (d + - 2 + 31)" using md(1,3) by (auto simp: valid_date_def dim_cases)
    then have "1 \<le> ymd2ord y 3 (d + - 2 + 31) \<and> ymd2ord y 3 (d + - 2 + 31) \<le> MAXORDINAL"
      using ymd2ord_range assms(2) by blast
    moreover have "ymd2ord y 4 (d + - 2) = ymd2ord y 3 (d + - 2 + 31)"
      using date_ts_april [of y "d + - 2"] by (simp only: date_ts_eq_ord)
    ultimately show ?thesis using True by simp
  next
    case False
    then have "valid_date y mo (d + - 2)" using md(1,3) by (auto simp: valid_date_def dim_cases)
    then show ?thesis using ymd2ord_range assms(2) by blast
  qed
  have "good_friday y = Inr (date_ts y mo (d - 2))"
    using r by (simp add: good_friday_def md(2) add_days_date_ts)
  then show ?thesis using that md by blast
qed

lemma toordinal_eq_date_ts:
  "toordinal (date_ts y m d) = toordinal (date_ts y' m' d') \<longleftrightarrow> date_ts y m d = date_ts y' m' d'"
  by (simp add: toordinal_date_ts date_ts_eq_ord)

lemma spx_eq:
  assumes "1 \<le> y" "y \<le> 9999" "1 \<le> m" "m \<le> 12"
  obtains D tf gf where "15 \<le> D" "D \<le> 21" "tf = date_ts y m D"
    "third_friday y m = Inr tf" "good_friday y = Inr gf" "weekday tf = 4"
    "toordinal tf \<noteq> toordinal gf \<Longrightarrow> spx_monthly_expiration y m = Inr tf"
    "toordinal tf = toordinal gf \<Longrightarrow> spx_monthly_expiration y m = Inr (date_ts y m (D - 1))"
    "weekday (date_ts y m (D - 1)) = 3"
proof -
  obtain D where D: "15 \<le> D" "D \<le> 21" "third_friday y m = Inr (date_ts y m D)"
    "weekday (date_ts y m D) = 4" "weekday (date_ts y m (D - 1)) = 3"
    using third_friday_eq [OF assms] by blast
  obtain mo d where g: "good_friday y = Inr (date_ts y mo (d - 2))"
    using good_friday_eq [OF assms(1,2)] by blast
  have v: "valid_date y m (D + - 1)"
    using assms D(1,2) dim_range [OF assms(3,4), of y] by (simp add: valid_date_def)
  have bk: "add_days (date_ts y m D) (- 1) = Inr (date_ts y m (D - 1))"
    using add_days_valid [OF v assms(2)] by simp
  have eq: "date_ts y m D = date_ts y mo (d - 2)
      \<longleftrightarrow> toordinal (date_ts y m D) = toordinal (date_ts y mo (d - 2))"
    by (simp only: toordinal_eq_date_ts)
  have 1: "spx_monthly_expiration y m = Inr (date_ts y m D)"
    if "toordinal (date_ts y m D) \<noteq> toordinal (date_ts y mo (d - 2))"
    using that eq by (simp add: spx_monthly_expiration_def D(3) g normalize_date_ts)
  have 2: "spx_monthly_expiration y m = Inr (date_ts y m (D - 1))"
    if "toordinal (date_ts y m D) = toordinal (date_ts y mo (d - 2))"
    using that eq bk by (simp add: spx_monthly_expiration_def D(3) g normalize_date_ts)
  show ?thesis
    using that [of D "date_ts y m D" "date_ts y mo (d - 2)"] D g 1 2 by blast
qed

lemma spx_Inl:
  assumes "\<not> (1 \<le> y \<and> y \<le> 9999 \<and> 1 \<le> m \<and> m \<le> 12)"
  shows "spx_monthly_expiration y m = Inl ValueError"
  using third_friday_Inl [OF assms] by (simp add: spx_monthly_expiration_def)

lemma spx_date:
  assumes "1 \<le> y" "y \<le> 9999" "1 \<le> m" "m \<le> 12"
  obtains D where "14 \<le> D" "D \<le> 21" "spx_monthly_expiration y m = Inr (date_ts y m D)"
proof -
  obtain D tf gf where D: "15 \<le> D" "D \<le> 21" "tf = date_ts y m D"
    "toordinal tf \<noteq> toordinal gf \<Longrightarrow> spx_monthly_expiration y m = Inr tf"
    "toordinal tf = toordinal gf \<Longrightarrow> spx_monthly_expiration y m = Inr (date_ts y m (D - 1))"
    using spx_eq [OF assms] by blast
  show ?thesis
  proof (cases "toordinal tf = toordinal gf")
    case True
    then show ?thesis using that [of "D - 1"] D by simp
  next
    case False
    then show ?thesis using that [of D] D by simp
  qed
qed

lemma vix_eq:
  assumes "1 \<le> y" "y \<le> 9999" "1 \<le> m" "m \<le> 12" "\<not> (y = 9999 \<and> m = 12)"
  obtains D where "12 \<le> D" "D \<le> 22" "D + 9 \<le> days_in_month y m"
    "vix_monthly_settlement_for_month y m = Inr (date_ts y m D)" "valid_date y m D"
proof -
  obtain y2 m2 where fm: "following_month y m = (y2, m2)" by (cases "following_month y m")
  then have r: "1 \<le> y2" "y2 \<le> 9999" "1 \<le> m2" "m2 \<le> 12"
    using assms by (auto simp: following_month_def split: if_splits)
  obtain D where D: "14 \<le> D" "D \<le> 21" "spx_monthly_expiration y2 m2 = Inr (date_ts y2 m2 D)"
    using spx_date [OF r] by blast
  have x': "date_ts y2 m2 D = date_ts y m (D + days_in_month y m)"
    by (rule following_month_date_ts [OF assms(3,4) fm])
  note dr = dim_range [OF assms(3,4), of y]
  have v: "valid_date y m (D + days_in_month y m + - 30)"
    using assms D(1,2) dr by (simp add: valid_date_def)
  have "vix_monthly_settlement_for_month y m = Inr (date_ts y m (D + days_in_month y m + - 30))"
    using add_days_valid [OF v assms(2)]
    by (simp add: vix_monthly_settlement_for_month_def fm D(3) x')
  then show ?thesis
    using that [of "D + days_in_month y m + - 30"] v D(1,2) dr by simp
qed

lemma vix_Inr:
  assumes "vix_monthly_settlement_for_month y m = Inr v" "1 \<le> m" "m \<le> 12"
  shows "1 \<le> y \<and> y \<le> 9999 \<and> \<not> (y = 9999 \<and> m = 12)"
proof (rule ccontr)
  assume n: "\<not> ?thesis"
  obtain y2 m2 where fm: "following_month y m = (y2, m2)" by (cases "following_month y m")
  show False
  proof (cases "y = 0 \<and> m = 12")
    case True
    then have fm': "following_month y m = (1, 1)" by (simp add: following_month_def)
    obtain D where D: "14 \<le> D" "D \<le> 21" "spx_monthly_expiration 1 1 = Inr (date_ts 1 1 D)"
      using spx_date [of 1 1] by auto
    have "ymd2ord 1 1 (D + - 30) = D - 30"
      by (simp add: ymd2ord_def dby_1 dbm_cases)
    then have "add_days (date_ts 1 1 D) (- 30) = Inl ValueError"
      using D(2) by (simp add: add_days_date_ts)
    then show False
      using assms(1) by (simp add: vix_monthly_settlement_for_month_def fm' D(3))
  next
    case False
    then have "\<not> (1 \<le> y2 \<and> y2 \<le> 9999 \<and> 1 \<le> m2 \<and> m2 \<le> 12)"
      using n fm assms(2,3) by (auto simp: following_month_def split: if_splits)
    then have "spx_monthly_expiration y2 m2 = Inl ValueError" by (rule spx_Inl)
    then show False using assms(1) by (simp add: vix_monthly_settlement_for_month_def fm)
  qed
qed

text \<open>
  C6. For every month 1 to 12 of every year that a \<open>Timestamp\<close> can hold (1 to 9999),
  \<open>third_friday\<close> returns a date of that month that is a Friday (weekday 4, Monday being 0)
  and whose day of the month lies between 15 and 21.
\<close>

theorem third_friday_is_friday:
  assumes "1 \<le> year" "year \<le> 9999" "1 \<le> month" "month \<le> 12"
  shows "\<exists>tf. third_friday year month = Inr tf
           \<and> weekday tf = 4 \<and> 15 \<le> ts_day tf \<and> ts_day tf \<le> 21
           \<and> ts_year tf = year \<and> ts_month tf = month"
proof -
  obtain D where D: "15 \<le> D" "D \<le> 21" "third_friday year month = Inr (date_ts year month D)"
    "weekday (date_ts year month D) = 4"
    using third_friday_eq [OF assms] by blast
  have "valid_date year month D"
    using D(1,2) assms dim_range [OF assms(3,4), of year] by (simp add: valid_date_def)
  then show ?thesis using D by (simp add: date_ts_fields)
qed

lemma third_friday_2024_4: "third_friday 2024 4 = Inr (Timestamp 1713484800000000000)"
  by code_simp

theorem third_friday_is_friday_witness:
  "(1::int) \<le> 2024 \<and> (2024::int) \<le> 9999 \<and> (1::int) \<le> 4 \<and> (4::int) \<le> 12
   \<and> third_friday 2024 4 = Inr (Timestamp 1713484800000000000)
   \<and> weekday (Timestamp 1713484800000000000) = 4
   \<and> 15 \<le> ts_day (Timestamp 1713484800000000000)
   \<and> ts_day (Timestamp 1713484800000000000) \<le> 21
   \<and> ts_month (Timestamp 1713484800000000000) = 4"
  using third_friday_is_friday [of 2024 4] third_friday_2024_4 by auto

text \<open>
  C3. For every year from 2000 to 2100 both functions return, Good Friday is Easter Sunday
  minus two days, and Easter Sunday is a date of that year between March 22 and April 25.
\<close>

theorem good_friday_easter_2000_2100:
  assumes "2000 \<le> year" "year \<le> 2100"
  shows "\<exists>easter gf. easter_date year = Inr easter \<and> good_friday year = Inr gf
           \<and> ts_value gf = ts_value easter - 2 * NS_PER_DAY
           \<and> toordinal gf = toordinal easter - 2
           \<and> ts_year easter = year
           \<and> ((ts_month easter = 3 \<and> 22 \<le> ts_day easter \<and> ts_day easter \<le> 31)
                \<or> (ts_month easter = 4 \<and> 1 \<le> ts_day easter \<and> ts_day easter \<le> 25))"
proof -
  have r: "1 \<le> year" "year \<le> 9999" using assms by simp_all
  obtain mo d where e: "valid_date year mo d" "easter_date year = Inr (date_ts year mo d)"
    "good_friday year = Inr (date_ts year mo (d - 2))"
    "(mo = 3 \<and> 22 \<le> d \<and> d \<le> 31) \<or> (mo = 4 \<and> 1 \<le> d \<and> d \<le> 25)"
    using good_friday_eq [OF r] by blast
  have v: "ts_value (date_ts year mo (d - 2)) = ts_value (date_ts year mo d) - 2 * NS_PER_DAY"
    using value_date_ts_add [of year mo d "- 2"] by simp
  have o: "toordinal (date_ts year mo (d - 2)) = toordinal (date_ts year mo d) - 2"
    unfolding toordinal_date_ts by (simp add: ymd2ord_def)
  show ?thesis
    using e(2,3,4) v o date_ts_fields [OF e(1)] by simp
qed

lemma easter_2024: "easter_date 2024 = Inr (Timestamp 1711843200000000000)"
  by code_simp

lemma good_friday_2024: "good_friday 2024 = Inr (Timestamp 1711670400000000000)"
  by code_simp

theorem good_friday_easter_2000_2100_witness:
  "(2000::int) \<le> 2024 \<and> (2024::int) \<le> 2100
   \<and> easter_date 2024 = Inr (Timestamp 1711843200000000000)
   \<and> good_friday 2024 = Inr (Timestamp 1711670400000000000)
   \<and> ts_year (Timestamp 1711843200000000000) = 2024
   \<and> toordinal (Timestamp 1711670400000000000) = toordinal (Timestamp 1711843200000000000) - 2"
  using good_friday_easter_2000_2100 [of 2024] easter_2024 good_friday_2024 by auto

text \<open>
  C4. For every month 1 to 12 of a year 1 to 9999, \<open>third_friday\<close> and \<open>good_friday\<close> return;
  when they fall on different calendar days \<open>spx_monthly_expiration\<close> returns the third
  Friday, and when they fall on the same calendar day it returns the third Friday minus one
  day, which is a Thursday (weekday 3).
\<close>

theorem spx_monthly_expiration_rule:
  assumes "1 \<le> year" "year \<le> 9999" "1 \<le> month" "month \<le> 12"
  shows "\<exists>tf gf. third_friday year month = Inr tf \<and> good_friday year = Inr gf
           \<and> (toordinal tf \<noteq> toordinal gf \<longrightarrow> spx_monthly_expiration year month = Inr tf)
           \<and> (toordinal tf = toordinal gf \<longrightarrow>
                (\<exists>thu. spx_monthly_expiration year month = Inr thu
                   \<and> ts_value thu = ts_value tf - 1 * NS_PER_DAY
                   \<and> toordinal thu = toordinal tf - 1
                   \<and> weekday thu = 3))"
proof -
  obtain D tf gf where D: "tf = date_ts year month D"
    "third_friday year month = Inr tf" "good_friday year = Inr gf"
    "toordinal tf \<noteq> toordinal gf \<Longrightarrow> spx_monthly_expiration year month = Inr tf"
    "toordinal tf = toordinal gf \<Longrightarrow> spx_monthly_expiration year month = Inr (date_ts year month (D - 1))"
    "weekday (date_ts year month (D - 1)) = 3"
    using spx_eq [OF assms] by blast
  have v: "ts_value (date_ts year month (D - 1)) = ts_value tf - 1 * NS_PER_DAY"
    unfolding D(1) using value_date_ts_add [of year month D "- 1"] by simp
  have o: "toordinal (date_ts year month (D - 1)) = toordinal tf - 1"
    unfolding D(1) toordinal_date_ts by (simp add: ymd2ord_def)
  show ?thesis
    using D(2,3,4,5,6) v o by blast
qed

lemma third_friday_2019_4: "third_friday 2019 4 = Inr (Timestamp 1555632000000000000)"
  by code_simp

lemma good_friday_2019: "good_friday 2019 = Inr (Timestamp 1555632000000000000)"
  by code_simp

theorem spx_monthly_expiration_rule_witness:
  "(1::int) \<le> 2019 \<and> (2019::int) \<le> 9999 \<and> (1::int) \<le> 4 \<and> (4::int) \<le> 12
   \<and> third_friday 2019 4 = Inr (Timestamp 1555632000000000000)
   \<and> good_friday 2019 = Inr (Timestamp 1555632000000000000)
   \<and> (\<exists>thu. spx_monthly_expiration 2019 4 = Inr thu
          \<and> toordinal thu = toordinal (Timestamp 1555632000000000000) - 1 \<and> weekday thu = 3)"
  using spx_monthly_expiration_rule [of 2019 4] third_friday_2019_4 good_friday_2019 by auto

text \<open>
  C5. For every month 1 to 12 of a year 1 to 9999, December 9999 apart (its following month
  is in year 10000, which no \<open>Timestamp\<close> holds), the VIX settlement of the month is the
  standard expiration of the following month, where the month after December is January of
  the next year, minus 30 days.
\<close>

theorem vix_settlement_is_next_expiration_minus_30:
  assumes "1 \<le> year" "year \<le> 9999" "1 \<le> month" "month \<le> 12"
    and "\<not> (year = 9999 \<and> month = 12)"
  shows "\<exists>exp v. spx_monthly_expiration (if month = 12 then year + 1 else year)
                    (if month = 12 then 1 else month + 1) = Inr exp
           \<and> vix_monthly_settlement_for_month year month = Inr v
           \<and> ts_value v = ts_value exp - 30 * NS_PER_DAY
           \<and> toordinal v = toordinal exp - 30"
proof -
  define y2 where "y2 = (if month = 12 then year + 1 else year)"
  define m2 where "m2 = (if month = 12 then 1 else month + 1)"
  have fm: "following_month year month = (y2, m2)"
    by (simp add: following_month_def y2_def m2_def)
  have r: "1 \<le> y2" "y2 \<le> 9999" "1 \<le> m2" "m2 \<le> 12"
    using assms by (auto simp: y2_def m2_def)
  obtain D where D: "spx_monthly_expiration y2 m2 = Inr (date_ts y2 m2 D)"
    using spx_date [OF r] by blast
  obtain v where v: "vix_monthly_settlement_for_month year month = Inr v"
    using vix_eq [OF assms] by blast
  then have a: "add_days (date_ts y2 m2 D) (- 30) = Inr v"
    by (simp add: vix_monthly_settlement_for_month_def fm D)
  then have "v = date_ts y2 m2 (D + - 30)"
    unfolding add_days_date_ts by (simp split: if_splits)
  then have "ts_value v = ts_value (date_ts y2 m2 D) - 30 * NS_PER_DAY"
    "toordinal v = toordinal (date_ts y2 m2 D) - 30"
    using value_date_ts_add [of y2 m2 D "- 30"]
    by (simp_all add: toordinal_date_ts ymd2ord_def)
  then show ?thesis
    using D v unfolding y2_def m2_def by blast
qed

lemma spx_2025_1: "spx_monthly_expiration 2025 1 = Inr (Timestamp 1737072000000000000)"
  by code_simp

lemma vix_2024_12: "vix_monthly_settlement_for_month 2024 12 = Inr (Timestamp 1734480000000000000)"
  by code_simp

theorem vix_settlement_is_next_expiration_minus_30_witness:
  "(1::int) \<le> 2024 \<and> (2024::int) \<le> 9999 \<and> (1::int) \<le> 12 \<and> (12::int) \<le> 12
   \<and> \<not> ((2024::int) = 9999 \<and> (12::int) = 12)
   \<and> spx_monthly_expiration 2025 1 = Inr (Timestamp 1737072000000000000)
   \<and> vix_monthly_settlement_for_month 2024 12 = Inr (Timestamp 1734480000000000000)
   \<and> toordinal (Timestamp 1734480000000000000) = toordinal (Timestamp 1737072000000000000) - 30"
  using vix_settlement_is_next_expiration_minus_30 [of 2024 12] spx_2025_1 vix_2024_12 by auto

text \<open>
  C10. For every month 1 to 12 of a year 1 to 9999, December 9999 apart,
  \<open>vix_monthly_settlement_for_month\<close> returns a date of that same month of that same year;
  its day of the month lies between 12 and 22.
\<close>

theorem vix_settlement_within_month:
  assumes "1 \<le> year" "year \<le> 9999" "1 \<le> month" "month \<le> 12"
    and "\<not> (year = 9999 \<and> month = 12)"
  shows "\<exists>v. vix_monthly_settlement_for_month year month = Inr v
           \<and> ts_year v = year \<and> ts_month v = month \<and> 12 \<le> ts_day v \<and> ts_day v \<le> 22"
proof -
  obtain D where D: "12 \<le> D" "D \<le> 22"
    "vix_monthly_settlement_for_month year month = Inr (date_ts year month D)"
    "valid_date year month D"
    using vix_eq [OF assms] by blast
  show ?thesis using D(1,2,3) date_ts_fields [OF D(4)] by simp
qed

lemma vix_2024_2: "vix_monthly_settlement_for_month 2024 2 = Inr (Timestamp 1707868800000000000)"
  by code_simp

theorem vix_settlement_within_month_witness:
  "(1::int) \<le> 2024 \<and> (2024::int) \<le> 9999 \<and> (1::int) \<le> 2 \<and> (2::int) \<le> 12
   \<and> \<not> ((2024::int) = 9999 \<and> (2::int) = 12)
   \<and> vix_monthly_settlement_for_month 2024 2 = Inr (Timestamp 1707868800000000000)
   \<and> ts_year (Timestamp 1707868800000000000) = 2024
   \<and> ts_month (Timestamp 1707868800000000000) = 2"
  using vix_settlement_within_month [of 2024 2] vix_2024_2 by auto

text \<open>
  C8 as stated fails: month 0 is outside 1 to 12, and \<open>vix_monthly_settlement_for_month\<close>
  returns a date for it (2023-12-20 for year 2024), since the month it hands on is month 1.
\<close>

theorem vix_month_0_counterexample:
  "vix_monthly_settlement_for_month 2024 0 = Inr (Timestamp 1703030400000000000)"
  by code_simp

text \<open>
  C8, amended. For every month outside 1 to 12, \<open>third_friday\<close> and
  \<open>spx_monthly_expiration\<close> raise \<open>ValueError\<close> (from the \<open>Timestamp\<close> constructor, the only
  check there is); \<open>vix_monthly_settlement_for_month\<close> raises it for every month outside
  0 to 12, and for month 0 of a year 2 to 9999 it returns the standard expiration of
  January of that year minus 30 days.
\<close>

theorem month_out_of_range:
  assumes "month < 1 \<or> 12 < month"
  shows "third_friday year month = Inl ValueError
         \<and> spx_monthly_expiration year month = Inl ValueError
         \<and> (month \<noteq> 0 \<longrightarrow> vix_monthly_settlement_for_month year month = Inl ValueError)
         \<and> (month = 0 \<and> 2 \<le> year \<and> year \<le> 9999 \<longrightarrow>
              (\<exists>exp v. spx_monthly_expiration year 1 = Inr exp
                 \<and> vix_monthly_settlement_for_month year month = Inr v
                 \<and> toordinal v = toordinal exp - 30))"
proof (intro conjI impI)
  have n: "\<not> (1 \<le> year \<and> year \<le> 9999 \<and> 1 \<le> month \<and> month \<le> 12)" using assms by auto
  show "third_friday year month = Inl ValueError" by (rule third_friday_Inl [OF n])
  show "spx_monthly_expiration year month = Inl ValueError" by (rule spx_Inl [OF n])
next
  assume "month \<noteq> 0"
  then have fm: "following_month year month = (year, month + 1)"
    and n: "\<not> (1 \<le> year \<and> year \<le> 9999 \<and> 1 \<le> month + 1 \<and> month + 1 \<le> 12)"
    using assms by (auto simp: following_month_def)
  show "vix_monthly_settlement_for_month year month = Inl ValueError"
    by (simp add: vix_monthly_settlement_for_month_def fm spx_Inl [OF n])
next
  assume a: "month = 0 \<and> 2 \<le> year \<and> year \<le> 9999"
  then have fm: "following_month year month = (year, 1)" by (simp add: following_month_def)
  obtain D where D: "14 \<le> D" "D \<le> 21" "spx_monthly_expiration year 1 = Inr (date_ts year 1 D)"
    using spx_date [of year 1] a by auto
  have p: "following_month (year - 1) 12 = (year, 1)" by (simp add: following_month_def)
  have e: "date_ts year 1 (D + - 30) = date_ts (year - 1) 12 (D + - 30 + 31)"
    using following_month_date_ts [OF _ _ p, of "D + - 30"] by (simp add: dim_cases)
  have v: "valid_date (year - 1) 12 (D + - 30 + 31)"
    using a D(1,2) by (simp add: valid_date_def dim_cases)
  have "1 \<le> ymd2ord year 1 (D + - 30) \<and> ymd2ord year 1 (D + - 30) \<le> MAXORDINAL"
    using ymd2ord_range [OF v] a e by (simp add: date_ts_eq_ord)
  then have "vix_monthly_settlement_for_month year month = Inr (date_ts year 1 (D + - 30))"
    by (simp add: vix_monthly_settlement_for_month_def fm D(3) add_days_date_ts)
  moreover have "toordinal (date_ts year 1 (D + - 30)) = toordinal (date_ts year 1 D) - 30"
    by (simp add: toordinal_date_ts ymd2ord_def)
  ultimately show "\<exists>exp v. spx_monthly_expiration year 1 = Inr exp
                 \<and> vix_monthly_settlement_for_month year month = Inr v
                 \<and> toordinal v = toordinal exp - 30"
    using D(3) by blast
qed

lemma third_friday_2024_13: "third_friday 2024 13 = Inl ValueError"
  by code_simp

theorem month_out_of_range_witness:
  "((13::int) < 1 \<or> (12::int) < 13)
   \<and> third_friday 2024 13 = Inl ValueError
   \<and> spx_monthly_expiration 2024 13 = Inl ValueError
   \<and> vix_monthly_settlement_for_month 2024 13 = Inl ValueError"
  using month_out_of_range [of 13 2024] third_friday_2024_13 by auto

lemma following_month_valid:
  assumes "1 \<le> m" "m \<le> 12" "following_month y m = (y2, m2)"
  shows "1 \<le> m2" "m2 \<le> 12" "y \<le> y2" "y2 \<le> y + 1"
  using assms by (auto simp: following_month_def split: if_splits)

lemma ord_surj:
  assumes "1 \<le> n"
  shows "\<exists>y m d. valid_date y m d \<and> ymd2ord y m d = n"
  using assms
proof (induction n rule: int_ge_induct)
  case base
  have "valid_date 1 1 1" by (simp add: valid_date_def dim_cases)
  moreover have "ymd2ord 1 1 1 = 1" by (simp add: ymd2ord_def dby_1 dbm_cases)
  ultimately show ?case by blast
next
  case (step i)
  then obtain y m d where v: "valid_date y m d" and o: "ymd2ord y m d = i" by blast
  from v have f: "1 \<le> y" "1 \<le> m" "m \<le> 12" "1 \<le> d" "d \<le> days_in_month y m"
    by (simp_all add: valid_date_def)
  show ?case
  proof (cases "d < days_in_month y m")
    case True
    then have "valid_date y m (d + 1)" using f by (simp add: valid_date_def)
    moreover have "ymd2ord y m (d + 1) = i + 1" using o by (simp add: ymd2ord_add)
    ultimately show ?thesis by blast
  next
    case False
    then have d: "d = days_in_month y m" using f by simp
    obtain y2 m2 where fm: "following_month y m = (y2, m2)" by (cases "following_month y m")
    note fv = following_month_valid [OF f(2,3) fm]
    have "valid_date y2 m2 1"
      using fv f(1) dim_range [OF fv(1,2), of y2] by (simp add: valid_date_def)
    moreover have "ymd2ord y2 m2 1 = i + 1"
      using following_month_ord [OF f(2,3) fm, of 1] o d by (simp add: ymd2ord_def)
    ultimately show ?thesis by blast
  qed
qed

lemma valid_ts_date:
  assumes "valid_ts ts"
  obtains y m d where "valid_date y m d" "y \<le> 9999" "ts_year ts = y" "ts_month ts = m"
    "ts_day ts = d" "normalize ts = date_ts y m d" "toordinal ts = ymd2ord y m d"
proof -
  from assms have r: "1 \<le> toordinal ts" "toordinal ts \<le> MAXORDINAL" by (simp_all add: valid_ts_def)
  obtain y m d where v: "valid_date y m d" and o: "ymd2ord y m d = toordinal ts"
    using ord_surj [OF r(1)] by blast
  from v have f: "1 \<le> y" "1 \<le> m" "m \<le> 12" "1 \<le> d" "d \<le> days_in_month y m"
    by (simp_all add: valid_date_def)
  have y: "y \<le> 9999"
  proof (rule ccontr)
    assume "\<not> y \<le> 9999"
    then have "days_before_year 10000 \<le> days_before_year y" by (intro dby_mono) simp
    moreover have "0 \<le> days_before_month y m + d - 1" by (rule doy_bounds(1) [OF f(2-5)])
    ultimately have "MAXORDINAL < ymd2ord y m d" by (simp add: ymd2ord_def dby_10000)
    then show False using r(2) o by simp
  qed
  have fields: "ord2ymd (toordinal ts) = (y, m, d)"
    unfolding o [symmetric] by (rule ord2ymd_ymd2ord [OF f])
  have "ts_value ts - ts_value ts mod NS_PER_DAY = (ts_value ts div NS_PER_DAY) * NS_PER_DAY"
    by (simp add: minus_mod_eq_div_mult)
  also have "\<dots> = (ymd2ord y m d - EPOCH_ORDINAL) * NS_PER_DAY"
    unfolding o by (simp add: toordinal_def)
  finally have n: "normalize ts = date_ts y m d" by (simp add: normalize_def date_ts_def)
  show ?thesis
    using that [OF v y _ _ _ n o [symmetric]] fields
    by (simp add: ts_year_def ts_month_def ts_day_def)
qed

lemma vix_consecutive:
  assumes "1 \<le> m" "m \<le> 12" "following_month y m = (y2, m2)"
    and "vix_monthly_settlement_for_month y m = Inr a"
    and "vix_monthly_settlement_for_month y2 m2 = Inr b"
  obtains Da Db where "12 \<le> Da" "Da \<le> 22" "12 \<le> Db" "Db \<le> 22"
    "a = date_ts y m Da" "b = date_ts y m (Db + days_in_month y m)"
    "ts_year a = y" "ts_month a = m" "ts_year b = y2" "ts_month b = m2"
    "ts_value a < ts_value b" "Da \<le> days_in_month y m"
proof -
  note fv = following_month_valid [OF assms(1-3)]
  note ra = vix_Inr [OF assms(4) assms(1,2)]
  note rb = vix_Inr [OF assms(5) fv(1,2)]
  obtain Da where a: "12 \<le> Da" "Da \<le> 22" "Da + 9 \<le> days_in_month y m"
    "vix_monthly_settlement_for_month y m = Inr (date_ts y m Da)" "valid_date y m Da"
    using vix_eq [of y m] ra assms(1,2) by blast
  obtain Db where b: "12 \<le> Db" "Db \<le> 22"
    "vix_monthly_settlement_for_month y2 m2 = Inr (date_ts y2 m2 Db)" "valid_date y2 m2 Db"
    using vix_eq [of y2 m2] rb fv(1,2) by blast
  have a': "a = date_ts y m Da" using a(4) assms(4) by simp
  have b': "b = date_ts y2 m2 Db" using b(3) assms(5) by simp
  have b'': "b = date_ts y m (Db + days_in_month y m)"
    unfolding b' by (rule following_month_date_ts [OF assms(1-3)])
  have lt: "ts_value a < ts_value b"
    unfolding a' b'' date_ts_less_iff using a(2,3) b(1) by simp
  show ?thesis
    using that [OF a(1,2) b(1,2) a' b'' _ _ _ _ lt] a(3)
      date_ts_fields [OF a(5)] date_ts_fields [OF b(4)]
    unfolding a' b' by simp
qed

lemma vix_candidate:
  assumes "valid_date y m d" "vix_monthly_settlement_for_month y m = Inr c"
  obtains D where "c = date_ts y m D" "12 \<le> D" "D \<le> 22" "D \<le> days_in_month y m"
    "normalize c = c"
    "ts_value (date_ts y m d) > ts_value (normalize c) \<longleftrightarrow> D < d"
proof -
  from assms(1) have f: "1 \<le> y" "1 \<le> m" "m \<le> 12" by (simp_all add: valid_date_def)
  note r = vix_Inr [OF assms(2) f(2,3)]
  obtain D where D: "12 \<le> D" "D \<le> 22" "D + 9 \<le> days_in_month y m"
    "vix_monthly_settlement_for_month y m = Inr (date_ts y m D)"
    using vix_eq [of y m] r f by blast
  have c: "c = date_ts y m D" using D(4) assms(2) by simp
  show ?thesis
    using that [OF c D(1,2)] D(3) unfolding c normalize_date_ts date_ts_less_iff by simp
qed

lemma next_vix_total_aux:
  assumes "valid_date y m d" "y \<le> 9998"
  obtains y2 m2 c c2 where "following_month y m = (y2, m2)"
    "vix_monthly_settlement_for_month y m = Inr c"
    "vix_monthly_settlement_for_month y2 m2 = Inr c2" "y2 \<le> 9999" "1 \<le> m2" "m2 \<le> 12"
    "1 \<le> y2" "\<not> (y2 = 9999 \<and> m2 = 12)"
proof -
  from assms(1) have f: "1 \<le> y" "1 \<le> m" "m \<le> 12" by (simp_all add: valid_date_def)
  obtain y2 m2 where fm: "following_month y m = (y2, m2)" by (cases "following_month y m")
  note fv = following_month_valid [OF f(2,3) fm]
  have n: "\<not> (y2 = 9999 \<and> m2 = 12)" "y2 \<le> 9999" "1 \<le> y2"
    using fm assms(2) f by (auto simp: following_month_def split: if_splits)
  obtain D where "vix_monthly_settlement_for_month y m = Inr (date_ts y m D)"
    using vix_eq [of y m] f assms(2) by auto
  moreover obtain D2 where "vix_monthly_settlement_for_month y2 m2 = Inr (date_ts y2 m2 D2)"
    using vix_eq [of y2 m2] fv n by auto
  ultimately show ?thesis using that [OF fm] n fv by blast
qed

text \<open>
  C1. For a timestamp of a day that \<open>datetime\<close> can name: whenever
  \<open>next_vix_monthly_settlement\<close> returns, the date returned is on or after the day of the
  reference timestamp; when the reference day is the settlement day of its own month the
  function returns that settlement; and the function returns for every reference
  timestamp of a year up to 9998.
\<close>

theorem next_vix_monthly_settlement_on_or_after:
  assumes "valid_ts ts"
  shows "(\<forall>r. next_vix_monthly_settlement ts = Inr r \<longrightarrow>
            ts_value (normalize ts) \<le> ts_value (normalize r) \<and> toordinal ts \<le> toordinal r)
       \<and> (\<forall>c. vix_monthly_settlement_for_month (ts_year ts) (ts_month ts) = Inr c
                \<and> normalize ts = normalize c \<longrightarrow> next_vix_monthly_settlement ts = Inr c)
       \<and> (ts_year ts \<le> 9998 \<longrightarrow> (\<exists>r. next_vix_monthly_settlement ts = Inr r))"
proof -
  obtain y m d where t: "valid_date y m d" "y \<le> 9999" "ts_year ts = y" "ts_month ts = m"
    "normalize ts = date_ts y m d" "toordinal ts = ymd2ord y m d"
    using valid_ts_date [OF assms] by metis
  from t(1) have f: "1 \<le> y" "1 \<le> m" "m \<le> 12" "1 \<le> d" "d \<le> days_in_month y m"
    by (simp_all add: valid_date_def)
  obtain y2 m2 where fm: "following_month y m = (y2, m2)" by (cases "following_month y m")
  note fv = following_month_valid [OF f(2,3) fm]
  have 1: "ts_value (normalize ts) \<le> ts_value (normalize r) \<and> toordinal ts \<le> toordinal r"
    if r: "next_vix_monthly_settlement ts = Inr r" for r
  proof -
    from r obtain c where c: "vix_monthly_settlement_for_month y m = Inr c"
      by (auto simp: next_vix_monthly_settlement_def t(3,4) split: sum.splits)
    obtain D where D: "c = date_ts y m D" "12 \<le> D" "D \<le> days_in_month y m" "normalize c = c"
      "ts_value (date_ts y m d) > ts_value (normalize c) \<longleftrightarrow> D < d"
      using vix_candidate [OF t(1) c] by metis
    show ?thesis
    proof (cases "D < d")
      case True
      then have r2: "vix_monthly_settlement_for_month y2 m2 = Inr r"
        using r D(5) by (simp add: next_vix_monthly_settlement_def t(3,4,5) c fm)
      obtain Db where b: "12 \<le> Db" "r = date_ts y m (Db + days_in_month y m)"
        using vix_consecutive [OF f(2,3) fm c r2] by metis
      have "d \<le> Db + days_in_month y m" using b(1) f(5) by simp
      then show ?thesis
        unfolding t(5,6) b(2) normalize_date_ts toordinal_date_ts
        using date_ts_less_iff [of y m "Db + days_in_month y m" d]
        by (simp add: ymd2ord_def)
    next
      case False
      then have "r = c" using r D(5) by (simp add: next_vix_monthly_settlement_def t(3,4,5) c)
      then have rr: "r = date_ts y m D" using D(1) by simp
      show ?thesis
        unfolding rr t(5,6) normalize_date_ts toordinal_date_ts
        using False date_ts_less_iff [of y m D d] by (simp add: ymd2ord_def)
    qed
  qed
  have 2: "next_vix_monthly_settlement ts = Inr c"
    if c: "vix_monthly_settlement_for_month (ts_year ts) (ts_month ts) = Inr c"
      and n: "normalize ts = normalize c" for c
    using c n by (simp add: next_vix_monthly_settlement_def)
  have 3: "\<exists>r. next_vix_monthly_settlement ts = Inr r" if "ts_year ts \<le> 9998"
  proof -
    have "y \<le> 9998" using that t(3) by simp
    then obtain y2' m2' c c2 where a: "following_month y m = (y2', m2')"
      "vix_monthly_settlement_for_month y m = Inr c"
      "vix_monthly_settlement_for_month y2' m2' = Inr c2"
      using next_vix_total_aux [OF t(1)] by metis
    show ?thesis
      by (simp add: next_vix_monthly_settlement_def t(3,4) a)
  qed
  show ?thesis using 1 2 3 by blast
qed


lemma next_vix_2024_02_14:
  "valid_ts (Timestamp 1707904800000000000)"
  "next_vix_monthly_settlement (Timestamp 1707904800000000000) = Inr (Timestamp 1707868800000000000)"
  by code_simp+

theorem next_vix_monthly_settlement_on_or_after_witness:
  "valid_ts (Timestamp 1707904800000000000)
   \<and> next_vix_monthly_settlement (Timestamp 1707904800000000000)
       = Inr (Timestamp 1707868800000000000)
   \<and> toordinal (Timestamp 1707904800000000000) \<le> toordinal (Timestamp 1707868800000000000)"
  using next_vix_monthly_settlement_on_or_after [of "Timestamp 1707904800000000000"]
    next_vix_2024_02_14
  by blast

text \<open>
  C2. For a timestamp of a day that \<open>datetime\<close> can name: whenever
  \<open>next_two_vix_settlements\<close> returns a pair, its first component is what
  \<open>next_vix_monthly_settlement\<close> returns, its second component is strictly later, each
  component is the settlement of the month it lies in, and the month of the second is the
  month following that of the first (January of the next year after December). The
  function returns for every reference timestamp of a year up to 9998.
\<close>

theorem next_two_vix_settlements_consecutive:
  assumes "valid_ts ts"
  shows "(\<forall>a b. next_two_vix_settlements ts = Inr (a, b) \<longrightarrow>
            next_vix_monthly_settlement ts = Inr a
            \<and> ts_value a < ts_value b
            \<and> vix_monthly_settlement_for_month (ts_year a) (ts_month a) = Inr a
            \<and> vix_monthly_settlement_for_month (ts_year b) (ts_month b) = Inr b
            \<and> following_month (ts_year a) (ts_month a) = (ts_year b, ts_month b))
       \<and> (ts_year ts \<le> 9998 \<longrightarrow> (\<exists>a b. next_two_vix_settlements ts = Inr (a, b)))"
proof -
  obtain y m d where t: "valid_date y m d" "y \<le> 9999" "ts_year ts = y" "ts_month ts = m"
    "normalize ts = date_ts y m d"
    using valid_ts_date [OF assms] by metis
  from t(1) have f: "1 \<le> y" "1 \<le> m" "m \<le> 12" by (simp_all add: valid_date_def)
  obtain y2 m2 where fm: "following_month y m = (y2, m2)" by (cases "following_month y m")
  note fv = following_month_valid [OF f(2,3) fm]
  obtain y3 m3 where fm2: "following_month y2 m2 = (y3, m3)" by (cases "following_month y2 m2")
  have pair: "ts_value a < ts_value b
      \<and> vix_monthly_settlement_for_month (ts_year a) (ts_month a) = Inr a
      \<and> vix_monthly_settlement_for_month (ts_year b) (ts_month b) = Inr b
      \<and> following_month (ts_year a) (ts_month a) = (ts_year b, ts_month b)"
    if "1 \<le> ma" "ma \<le> 12" "following_month ya ma = (yb, mb)"
      "vix_monthly_settlement_for_month ya ma = Inr a"
      "vix_monthly_settlement_for_month yb mb = Inr b" for ya ma yb mb a b
  proof -
    have "ts_year a = ya" "ts_month a = ma" "ts_year b = yb" "ts_month b = mb"
      "ts_value a < ts_value b"
      using vix_consecutive [OF that] by metis+
    then show ?thesis using that by simp
  qed
  have 1: "next_vix_monthly_settlement ts = Inr a
      \<and> ts_value a < ts_value b
      \<and> vix_monthly_settlement_for_month (ts_year a) (ts_month a) = Inr a
      \<and> vix_monthly_settlement_for_month (ts_year b) (ts_month b) = Inr b
      \<and> following_month (ts_year a) (ts_month a) = (ts_year b, ts_month b)"
    if r: "next_two_vix_settlements ts = Inr (a, b)" for a b
  proof -
    from r obtain c where c: "vix_monthly_settlement_for_month y m = Inr c"
      by (auto simp: next_two_vix_settlements_def t(3,4) split: sum.splits)
    show ?thesis
    proof (cases "ts_value (normalize ts) > ts_value (normalize c)")
      case True
      then have a: "vix_monthly_settlement_for_month y2 m2 = Inr a"
        and b: "vix_monthly_settlement_for_month y3 m3 = Inr b"
        using r by (auto simp: next_two_vix_settlements_def t(3,4) c fm fm2 split: sum.splits)
      have "next_vix_monthly_settlement ts = Inr a"
        using True by (simp add: next_vix_monthly_settlement_def t(3,4) c fm a)
      then show ?thesis using pair [OF fv(1,2) fm2 a b] by simp
    next
      case False
      then have a: "a = c" and b: "vix_monthly_settlement_for_month y2 m2 = Inr b"
        using r by (auto simp: next_two_vix_settlements_def t(3,4) c fm split: sum.splits)
      have "next_vix_monthly_settlement ts = Inr a"
        using False by (simp add: next_vix_monthly_settlement_def t(3,4) c a)
      then show ?thesis using pair [OF f(2,3) fm _ b, of a] c a by simp
    qed
  qed
  have 2: "\<exists>a b. next_two_vix_settlements ts = Inr (a, b)" if "ts_year ts \<le> 9998"
  proof -
    have "y \<le> 9998" using that t(3) by simp
    then obtain y2' m2' c c2 where a: "following_month y m = (y2', m2')"
      "vix_monthly_settlement_for_month y m = Inr c"
      "vix_monthly_settlement_for_month y2' m2' = Inr c2" "y2' \<le> 9999" "1 \<le> m2'" "m2' \<le> 12"
      "1 \<le> y2'" "\<not> (y2' = 9999 \<and> m2' = 12)"
      using next_vix_total_aux [OF t(1)] by metis
    have e: "y2' = y2" "m2' = m2" using a(1) fm by simp_all
    obtain D3 where "vix_monthly_settlement_for_month y3 m3 = Inr (date_ts y3 m3 D3)"
    proof -
      note fv2 = following_month_valid [OF fv(1,2) fm2]
      have "1 \<le> y3" "y3 \<le> 9999" "\<not> (y3 = 9999 \<and> m3 = 12)"
        using fm fm2 f \<open>y \<le> 9998\<close> by (auto simp: following_month_def split: if_splits)
      then show ?thesis using vix_eq [of y3 m3] fv2 that by blast
    qed
    then show ?thesis
      using a(2,3) unfolding e
      by (simp add: next_two_vix_settlements_def t(3,4) fm fm2)
  qed
  show ?thesis using 1 2 by blast
qed

lemma next_two_2024_02_15:
  "valid_ts (Timestamp 1707955200000000000)"
  "next_two_vix_settlements (Timestamp 1707955200000000000)
     = Inr (Timestamp 1710892800000000000, Timestamp 1713312000000000000)"
  by code_simp+

theorem next_two_vix_settlements_consecutive_witness:
  "valid_ts (Timestamp 1707955200000000000)
   \<and> next_two_vix_settlements (Timestamp 1707955200000000000)
       = Inr (Timestamp 1710892800000000000, Timestamp 1713312000000000000)
   \<and> next_vix_monthly_settlement (Timestamp 1707955200000000000)
       = Inr (Timestamp 1710892800000000000)
   \<and> following_month (ts_year (Timestamp 1710892800000000000))
         (ts_month (Timestamp 1710892800000000000))
       = (ts_year (Timestamp 1713312000000000000), ts_month (Timestamp 1713312000000000000))"
  using next_two_vix_settlements_consecutive [of "Timestamp 1707955200000000000"]
    next_two_2024_02_15
  by blast

end
